theory Spec2Isabelle
  imports Main "HOL-Library.Word"
begin

unbundle bit_operations_syntax

section \<open>Bytes and errors\<close>

text \<open>
  Python \<^verbatim>\<open>bytes\<close> are lists of 8-bit words; Python integers are unbounded and are
  modelled by \<^typ>\<open>int\<close>.
\<close>

type_synonym byte = "8 word"
type_synonym bytes = "byte list"

text \<open>
  The exception classes of the repository and the built-in ones it raises or lets
  through.  \<^verbatim>\<open>CryptoError\<close> is raised with many different messages; the message is
  kept as a tag.  \<^verbatim>\<open>HMACVerificationFailed\<close> and \<^verbatim>\<open>WrongPassword\<close> are subclasses of
  \<^verbatim>\<open>CryptoError\<close> in \<^verbatim>\<open>crypto_utils.py\<close>; they are separate constructors here, and
  every \<^verbatim>\<open>except\<close> clause of the source is written out in the functions below.
\<close>

datatype crypto_msg =
    KDFFailed
  | EncryptFailed
  | Base64DecodeFailed
  | DataTooShort
  | CreateKeyFailed
  | ImportKeyFailed
  | UnlockFailed
  | ExportFailed
  | ImportKeystoreFailed
  | SignMessageFailed
  | SignTransactionFailed
  | SignUserOpFailed

datatype error =
    CryptoError crypto_msg
  | HMACVerificationFailed
  | WrongPassword
  | FileNotFoundError
  | PermissionError
  | OverflowError
  | ValueError
  | ExternalError

section \<open>Integers as big-endian bytes\<close>

text \<open>
  \<^verbatim>\<open>int.to_bytes(length, 'big')\<close>: raises \<^verbatim>\<open>OverflowError\<close> for a negative integer and
  for one that does not fit in \<^verbatim>\<open>length\<close> bytes.
\<close>

fun be_bytes :: "nat \<Rightarrow> int \<Rightarrow> bytes" where
  "be_bytes 0 n = []"
| "be_bytes (Suc l) n = be_bytes l (n div 256) @ [word_of_int n]"

definition to_bytes :: "int \<Rightarrow> nat \<Rightarrow> error + bytes" where
  "to_bytes n len =
     (if n < 0 then Inl OverflowError
      else if 256 ^ len \<le> n then Inl OverflowError
      else Inr (be_bytes len n))"

text \<open>\<^verbatim>\<open>int.from_bytes(bs, 'big')\<close>.\<close>

definition from_bytes_big :: "bytes \<Rightarrow> int" where
  "from_bytes_big bs = foldl (\<lambda>acc b. acc * 256 + uint b) 0 bs"

section \<open>The libraries under crypto\_utils.py\<close>

text \<open>
  \<^verbatim>\<open>crypto_utils.py\<close> calls \<^verbatim>\<open>base64\<close>, \<^verbatim>\<open>hmac\<close>/\<^verbatim>\<open>hashlib\<close>, \<^verbatim>\<open>os.urandom\<close> and the
  \<^verbatim>\<open>cryptography\<close> package (PBKDF2-HMAC-SHA256, AES in CFB mode).  These are not code of
  the repository.  The two primitives, the SHA-256 hash and the AES block encryption,
  are parameters of the model; the constructions on top of them follow their standards:
  Base64 as CPython's \<^verbatim>\<open>binascii\<close> implements it, HMAC (RFC 2104), PBKDF2 (RFC 8018) and
  CFB with full-block feedback (NIST SP 800-38A), which is what \<^verbatim>\<open>modes.CFB\<close> is.
\<close>

subsection \<open>Strings\<close>

text \<open>
  A Python \<^verbatim>\<open>str\<close> is a sequence of code points below \<open>0x110000\<close>, the surrogates
  \<open>0xD800\<close> to \<open>0xDFFF\<close> included.  \<^verbatim>\<open>str.encode()\<close> is the strict UTF-8 encoder: one
  to four bytes per code point, and \<^verbatim>\<open>UnicodeEncodeError\<close> (here \<open>None\<close>) when the string
  holds a surrogate.  A number from \<open>0x110000\<close> on is not a code point; no \<^verbatim>\<open>str\<close>
  holds one, and the model gives it no encoding.
\<close>

type_synonym str = "nat list"

definition utf8_char :: "nat \<Rightarrow> bytes option" where
  "utf8_char c =
     (if c < 0x80 then Some [of_nat c]
      else if c < 0x800 then Some [of_nat (0xC0 + c div 64), of_nat (0x80 + c mod 64)]
      else if 0xD800 \<le> c \<and> c < 0xE000 then None
      else if c < 0x10000 then
        Some [of_nat (0xE0 + c div 4096), of_nat (0x80 + c div 64 mod 64),
              of_nat (0x80 + c mod 64)]
      else if c < 0x110000 then
        Some [of_nat (0xF0 + c div 262144), of_nat (0x80 + c div 4096 mod 64),
              of_nat (0x80 + c div 64 mod 64), of_nat (0x80 + c mod 64)]
      else None)"

fun encode :: "str \<Rightarrow> bytes option" where
  "encode [] = Some []"
| "encode (c # cs) =
     (case utf8_char c of
        None \<Rightarrow> None
      | Some b \<Rightarrow> (case encode cs of None \<Rightarrow> None | Some bs \<Rightarrow> Some (b @ bs)))"

subsection \<open>Base64\<close>

text \<open>
  \<^verbatim>\<open>base64.b64encode\<close>: three bytes become four characters of the alphabet
  \<^verbatim>\<open>A-Z a-z 0-9 + /\<close>, and a last group of one or two bytes is padded with \<^verbatim>\<open>=\<close>.
\<close>

definition table_b2a_base64 :: "byte \<Rightarrow> byte" where
  "table_b2a_base64 i =
     (if i < 26 then i + 65
      else if i < 52 then i + 71
      else if i < 62 then i - 4
      else if i = 62 then 43
      else 47)"

definition BASE64_PAD :: byte where
  "BASE64_PAD = 61"

fun b64encode :: "bytes \<Rightarrow> bytes" where
  "b64encode [] = []"
| "b64encode [a] =
     [table_b2a_base64 (drop_bit 2 a),
      table_b2a_base64 (push_bit 4 (a AND 3)),
      BASE64_PAD, BASE64_PAD]"
| "b64encode [a, b] =
     [table_b2a_base64 (drop_bit 2 a),
      table_b2a_base64 (push_bit 4 (a AND 3) OR drop_bit 4 b),
      table_b2a_base64 (push_bit 2 (b AND 15)),
      BASE64_PAD]"
| "b64encode (a # b # c # rest) =
     [table_b2a_base64 (drop_bit 2 a),
      table_b2a_base64 (push_bit 4 (a AND 3) OR drop_bit 4 b),
      table_b2a_base64 (push_bit 2 (b AND 15) OR drop_bit 6 c),
      table_b2a_base64 (c AND 63)] @ b64encode rest"

text \<open>
  \<^verbatim>\<open>base64.b64decode(s)\<close> is \<^verbatim>\<open>binascii.a2b_base64(s)\<close> in its non-strict mode
  (\<^verbatim>\<open>validate=False\<close>): bytes outside the alphabet are skipped, a pad character ends the
  input once the current quad holds at least two characters and the pads complete it,
  and input that ends inside a quad raises \<^verbatim>\<open>binascii.Error\<close> (here \<open>None\<close>).  The
  state is that of the C loop: \<^verbatim>\<open>quad_pos\<close>, \<^verbatim>\<open>leftchar\<close>, \<^verbatim>\<open>pads\<close> and the output so far.
\<close>

definition table_a2b_base64 :: "byte \<Rightarrow> byte option" where
  "table_a2b_base64 ch =
     (if 65 \<le> ch \<and> ch \<le> 90 then Some (ch - 65)
      else if 97 \<le> ch \<and> ch \<le> 122 then Some (ch - 71)
      else if 48 \<le> ch \<and> ch \<le> 57 then Some (ch + 4)
      else if ch = 43 then Some 62
      else if ch = 47 then Some 63
      else None)"

fun a2b_base64 :: "bytes \<Rightarrow> nat \<Rightarrow> byte \<Rightarrow> nat \<Rightarrow> bytes \<Rightarrow> bytes option" where
  "a2b_base64 [] quad_pos leftchar pads bin_data =
     (if quad_pos \<noteq> 0 then None else Some bin_data)"
| "a2b_base64 (this_ch # rest) quad_pos leftchar pads bin_data =
     (if this_ch = BASE64_PAD then
        (if 2 \<le> quad_pos then
           (if 4 \<le> quad_pos + (pads + 1) then Some bin_data
            else a2b_base64 rest quad_pos leftchar (pads + 1) bin_data)
         else a2b_base64 rest quad_pos leftchar pads bin_data)
      else
        (case table_a2b_base64 this_ch of
           None \<Rightarrow> a2b_base64 rest quad_pos leftchar pads bin_data
         | Some v \<Rightarrow>
             (if quad_pos = 0 then a2b_base64 rest 1 v 0 bin_data
              else if quad_pos = 1 then
                a2b_base64 rest 2 (v AND 15) 0 (bin_data @ [push_bit 2 leftchar OR drop_bit 4 v])
              else if quad_pos = 2 then
                a2b_base64 rest 3 (v AND 3) 0 (bin_data @ [push_bit 4 leftchar OR drop_bit 2 v])
              else
                a2b_base64 rest 0 0 0 (bin_data @ [push_bit 6 leftchar OR v]))))"

definition b64decode :: "bytes \<Rightarrow> bytes option" where
  "b64decode s = a2b_base64 s 0 0 0 []"

subsection \<open>The primitives\<close>

text \<open>
  \<^verbatim>\<open>sha256\<close> is the hash function (\<^verbatim>\<open>hashlib.sha256\<close>, \<^verbatim>\<open>hashes.SHA256()\<close>), with a
  32-byte digest and a 64-byte block; \<^verbatim>\<open>aes_block\<close> is the AES encryption of one
  16-byte block under a key.  \<^verbatim>\<open>lib_ok\<close> states the two output lengths.
\<close>

record crypto_lib =
  sha256 :: "bytes \<Rightarrow> bytes"
  aes_block :: "bytes \<Rightarrow> bytes \<Rightarrow> bytes"

definition lib_ok :: "crypto_lib \<Rightarrow> bool" where
  "lib_ok L \<longleftrightarrow> (\<forall>x. length (sha256 L x) = 32) \<and> (\<forall>k b. length (aes_block L k b) = 16)"

subsection \<open>HMAC-SHA256 and PBKDF2\<close>

definition xor_bytes :: "bytes \<Rightarrow> bytes \<Rightarrow> bytes" where
  "xor_bytes xs ys = map2 (XOR) xs ys"

text \<open>
  RFC 2104: a key longer than the 64-byte block is hashed first; the key is then padded
  with zero bytes to the block length.
\<close>

definition hmac_block_key :: "crypto_lib \<Rightarrow> bytes \<Rightarrow> bytes" where
  "hmac_block_key L key =
     (let k = (if 64 < length key then sha256 L key else key)
      in k @ replicate (64 - length k) 0)"

definition hmac_sha256 :: "crypto_lib \<Rightarrow> bytes \<Rightarrow> bytes \<Rightarrow> bytes" where
  "hmac_sha256 L key msg =
     (let k0 = hmac_block_key L key
      in sha256 L (map (\<lambda>b. b XOR 0x5c) k0 @ sha256 L (map (\<lambda>b. b XOR 0x36) k0 @ msg)))"

text \<open>
  RFC 8018, section 5.2: block \<open>i\<close> is \<open>U\<^sub>1 XOR ... XOR U\<^sub>c\<close> with
  \<open>U\<^sub>1 = PRF(P, S || INT(i))\<close> and \<open>U\<^sub>j = PRF(P, U\<^sub>j\<^sub>-\<^sub>1)\<close>; the derived key is the first
  \<^verbatim>\<open>len\<close> bytes of the blocks \<open>1, 2, ...\<close>.
\<close>

fun pbkdf2_rounds :: "crypto_lib \<Rightarrow> bytes \<Rightarrow> nat \<Rightarrow> bytes \<Rightarrow> bytes \<Rightarrow> bytes" where
  "pbkdf2_rounds L password 0 u t = t"
| "pbkdf2_rounds L password (Suc n) u t =
     (let u' = hmac_sha256 L password u
      in pbkdf2_rounds L password n u' (xor_bytes t u'))"

definition pbkdf2_block :: "crypto_lib \<Rightarrow> bytes \<Rightarrow> bytes \<Rightarrow> nat \<Rightarrow> nat \<Rightarrow> bytes" where
  "pbkdf2_block L password salt iterations i =
     (let u1 = hmac_sha256 L password (salt @ be_bytes 4 (int i))
      in pbkdf2_rounds L password (iterations - 1) u1 u1)"

definition pbkdf2_hmac_sha256 :: "crypto_lib \<Rightarrow> bytes \<Rightarrow> bytes \<Rightarrow> nat \<Rightarrow> nat \<Rightarrow> bytes" where
  "pbkdf2_hmac_sha256 L password salt iterations len =
     take len (concat (map (pbkdf2_block L password salt iterations) [1..<Suc ((len + 31) div 32)]))"

subsection \<open>AES in CFB mode\<close>

text \<open>
  Full-block cipher feedback: each ciphertext block is the plaintext block XOR the
  encryption of the previous ciphertext block (the IV for the first); a last partial
  block uses the leading bytes of the key stream.
\<close>

fun cfb_encrypt :: "crypto_lib \<Rightarrow> bytes \<Rightarrow> bytes \<Rightarrow> bytes \<Rightarrow> bytes" where
  "cfb_encrypt L key fb [] = []"
| "cfb_encrypt L key fb (p # ps) =
     (let c = xor_bytes (take 16 (p # ps)) (aes_block L key fb)
      in c @ cfb_encrypt L key c (drop 16 (p # ps)))"

fun cfb_decrypt :: "crypto_lib \<Rightarrow> bytes \<Rightarrow> bytes \<Rightarrow> bytes \<Rightarrow> bytes" where
  "cfb_decrypt L key fb [] = []"
| "cfb_decrypt L key fb (c # cs) =
     xor_bytes (take 16 (c # cs)) (aes_block L key fb)
       @ cfb_decrypt L key (take 16 (c # cs)) (drop 16 (c # cs))"

section \<open>crypto\_utils.py\<close>

text \<open>
  \<^verbatim>\<open>Cipher(algorithms.AES(key), modes.CFB(iv))\<close> raises \<^verbatim>\<open>ValueError\<close> for a key that is
  not 16, 24 or 32 bytes long and for an IV that is not 16 bytes long; the encryptor and
  the decryptor then run CFB over the whole input.
\<close>

definition aes_cfb_encrypt :: "crypto_lib \<Rightarrow> bytes \<Rightarrow> bytes \<Rightarrow> bytes \<Rightarrow> error + bytes" where
  "aes_cfb_encrypt L key iv data =
     (if length key \<notin> {16, 24, 32} then Inl ValueError
      else if length iv \<noteq> 16 then Inl ValueError
      else Inr (cfb_encrypt L key iv data))"

definition aes_cfb_decrypt :: "crypto_lib \<Rightarrow> bytes \<Rightarrow> bytes \<Rightarrow> bytes \<Rightarrow> error + bytes" where
  "aes_cfb_decrypt L key iv data =
     (if length key \<notin> {16, 24, 32} then Inl ValueError
      else if length iv \<noteq> 16 then Inl ValueError
      else Inr (cfb_decrypt L key iv data))"

text \<open>
  \<^verbatim>\<open>derive_key(password, salt, length)\<close>: PBKDF2-HMAC-SHA256 with 390000 iterations over
  \<^verbatim>\<open>password.encode()\<close>.  The \<^verbatim>\<open>except\<close> clause turns every exception inside the \<^verbatim>\<open>try\<close>
  into \<^verbatim>\<open>CryptoError("KDF key derivation failed")\<close>; the one the model has is the
  \<^verbatim>\<open>UnicodeEncodeError\<close> of \<^verbatim>\<open>password.encode()\<close>.
\<close>

definition derive_key :: "crypto_lib \<Rightarrow> str \<Rightarrow> bytes \<Rightarrow> nat \<Rightarrow> error + bytes" where
  "derive_key L password salt len =
     (case encode password of
        None \<Rightarrow> Inl (CryptoError KDFFailed)
      | Some pw \<Rightarrow> Inr (pbkdf2_hmac_sha256 L pw salt 390000 len))"

text \<open>
  \<^verbatim>\<open>aes_encrypt(data, password)\<close>.  The two results of \<^verbatim>\<open>os.urandom(16)\<close> are the
  arguments \<^verbatim>\<open>salt\<close> and \<^verbatim>\<open>iv\<close>: 16 bytes each, in the order the code draws them.
  \<^verbatim>\<open>aes_encrypt_keys\<close> is lines 38-39, the pair (\<^verbatim>\<open>key\<close>, \<^verbatim>\<open>hmac_key\<close>).  Every
  exception inside the \<^verbatim>\<open>try\<close> becomes \<^verbatim>\<open>CryptoError("AES encrypt failed")\<close>.
\<close>

definition aes_encrypt_keys :: "crypto_lib \<Rightarrow> bytes \<Rightarrow> str \<Rightarrow> (error + bytes) \<times> (error + bytes)" where
  "aes_encrypt_keys L salt password =
     (derive_key L password salt 32, derive_key L password salt 32)"

definition aes_encrypt :: "crypto_lib \<Rightarrow> bytes \<Rightarrow> bytes \<Rightarrow> bytes \<Rightarrow> str \<Rightarrow> error + bytes" where
  "aes_encrypt L salt iv data password =
     (case aes_encrypt_keys L salt password of
        (Inl e, _) \<Rightarrow> Inl (CryptoError EncryptFailed)
      | (Inr key, Inl e) \<Rightarrow> Inl (CryptoError EncryptFailed)
      | (Inr key, Inr hmac_key) \<Rightarrow>
     (case aes_cfb_encrypt L key iv data of
        Inl e \<Rightarrow> Inl (CryptoError EncryptFailed)
      | Inr ciphertext \<Rightarrow>
          (let mac = hmac_sha256 L hmac_key (salt @ iv @ ciphertext)
           in Inr (b64encode (salt @ iv @ ciphertext @ mac)))))"

text \<open>
  \<^verbatim>\<open>aes_decrypt(enc_data, password)\<close>.  The slices are \<^verbatim>\<open>raw[:16]\<close>, \<^verbatim>\<open>raw[16:32]\<close>,
  \<^verbatim>\<open>raw[32:-32]\<close> and \<^verbatim>\<open>raw[-32:]\<close>; \<^verbatim>\<open>hmac.compare_digest\<close> is equality of the two byte
  strings.  Inside the second \<^verbatim>\<open>try\<close>, \<^verbatim>\<open>HMACVerificationFailed\<close> is re-raised and every
  other exception becomes \<^verbatim>\<open>WrongPassword\<close>.
\<close>

definition aes_decrypt :: "crypto_lib \<Rightarrow> bytes \<Rightarrow> str \<Rightarrow> error + bytes" where
  "aes_decrypt L enc_data password =
     (case b64decode enc_data of
        None \<Rightarrow> Inl (CryptoError Base64DecodeFailed)
      | Some raw \<Rightarrow>
     (if length raw < 16 + 16 + 32 then Inl (CryptoError DataTooShort)
      else
     (let salt = take 16 raw;
          iv = take 16 (drop 16 raw);
          ciphertext = drop 32 (take (length raw - 32) raw);
          mac = drop (length raw - 32) raw
      in
     (case derive_key L password salt 32 of
        Inl e \<Rightarrow> Inl WrongPassword
      | Inr key \<Rightarrow>
     (case derive_key L password salt 32 of
        Inl e \<Rightarrow> Inl WrongPassword
      | Inr hmac_key \<Rightarrow>
     (let real_mac = hmac_sha256 L hmac_key (salt @ iv @ ciphertext)
      in
     (if mac \<noteq> real_mac then Inl HMACVerificationFailed
      else
     (case aes_cfb_decrypt L key iv ciphertext of
        Inl e \<Rightarrow> Inl WrongPassword
      | Inr plaintext \<Rightarrow> Inr plaintext))))))))"

text \<open>
  A stand-in for the two primitives with the right output lengths, at which the theorems
  below are instantiated: the hash is 32 copies of the first byte plus the sum of bytes
  64 to 79 of its input, so that keys derived from different passwords differ.  Nothing
  is claimed about it beyond \<^verbatim>\<open>lib_ok\<close>.
\<close>

definition toy_lib :: crypto_lib where
  "toy_lib =
     \<lparr> sha256 = (\<lambda>x. replicate 32 (sum_list (take 1 x) + sum_list (take 16 (drop 64 x)))),
       aes_block = (\<lambda>k b. take 16 (xor_bytes k b @ replicate 16 0)) \<rparr>"
section \<open>account.py: the operation builder\<close>

text \<open>
  The dictionary returned by \<^verbatim>\<open>Account.build_user_operation\<close>, with its nine keys.
\<close>

record user_op =
  sender :: string
  nonce :: int
  initCode :: bytes
  callData :: bytes
  accountGasLimits :: bytes
  preVerificationGas :: int
  gasFees :: bytes
  paymasterAndData :: bytes
  signature :: bytes

text \<open>
  The two calls that leave the process: \<^verbatim>\<open>self.get_nonce()\<close> (a contract call through
  the RPC provider) and \<^verbatim>\<open>self._get_gas_prices()\<close>, whose dictionary is the pair
  (\<^verbatim>\<open>maxFeePerGas\<close>, \<^verbatim>\<open>maxPriorityFeePerGas\<close>).  Either may raise; what they answer is
  a parameter of the model.
\<close>

record rpc_env =
  get_nonce :: "error + int"
  get_gas_prices :: "error + (int \<times> int)"

text \<open>Python's \<^verbatim>\<open>x or y\<close> on an optional integer: \<^verbatim>\<open>None\<close> and \<^verbatim>\<open>0\<close> are falsy.\<close>

definition py_or :: "int option \<Rightarrow> int \<Rightarrow> int" where
  "py_or x y = (case x of None \<Rightarrow> y | Some v \<Rightarrow> if v = 0 then y else v)"

text \<open>Lines 171-172: the nonce is fetched when it is not supplied.\<close>

definition resolve_nonce :: "rpc_env \<Rightarrow> int option \<Rightarrow> error + int" where
  "resolve_nonce env nonce0 = (case nonce0 of None \<Rightarrow> get_nonce env | Some n \<Rightarrow> Inr n)"

text \<open>
  Lines 175-178: the gas prices are fetched when either fee is \<^verbatim>\<open>None\<close>; a supplied fee
  is then kept only when it is truthy.  The result is
  (\<^verbatim>\<open>max_fee_per_gas\<close>, \<^verbatim>\<open>max_priority_fee_per_gas\<close>).
\<close>

definition resolve_fees :: "rpc_env \<Rightarrow> int option \<Rightarrow> int option \<Rightarrow> error + (int \<times> int)" where
  "resolve_fees env max_fee_per_gas max_priority_fee_per_gas =
     (case (max_fee_per_gas, max_priority_fee_per_gas) of
        (Some f, Some p) \<Rightarrow> Inr (f, p)
      | _ \<Rightarrow>
        (case get_gas_prices env of
           Inl e \<Rightarrow> Inl e
         | Inr (gas_max_fee, gas_max_priority) \<Rightarrow>
             Inr (py_or max_fee_per_gas gas_max_fee,
                  py_or max_priority_fee_per_gas gas_max_priority)))"

definition build_user_operation ::
  "rpc_env \<Rightarrow> string \<Rightarrow> bytes \<Rightarrow> int option \<Rightarrow> int option \<Rightarrow> int option \<Rightarrow>
   int \<Rightarrow> int \<Rightarrow> int \<Rightarrow> bytes \<Rightarrow> bytes \<Rightarrow> error + user_op" where
  "build_user_operation env contract_address call_data nonce0 max_fee_per_gas
       max_priority_fee_per_gas call_gas_limit verification_gas_limit
       pre_verification_gas paymaster_and_data signature0 =
     (case resolve_nonce env nonce0 of
        Inl e \<Rightarrow> Inl e
      | Inr n \<Rightarrow>
     (case resolve_fees env max_fee_per_gas max_priority_fee_per_gas of
        Inl e \<Rightarrow> Inl e
      | Inr (max_fee, max_priority) \<Rightarrow>
     (let account_gas_limits = push_bit 128 verification_gas_limit OR call_gas_limit;
          gas_fees = push_bit 128 max_priority OR max_fee
      in
     (case to_bytes account_gas_limits 32 of
        Inl e \<Rightarrow> Inl e
      | Inr agl \<Rightarrow>
     (case to_bytes gas_fees 32 of
        Inl e \<Rightarrow> Inl e
      | Inr gf \<Rightarrow>
          Inr \<lparr> sender = contract_address,
                nonce = n,
                initCode = [],
                callData = call_data,
                accountGasLimits = agl,
                preVerificationGas = pre_verification_gas,
                gasFees = gf,
                paymasterAndData = paymaster_and_data,
                signature = signature0 \<rparr>)))))"

text \<open>
  Reading a packed 32-byte field back: the upper and the lower 16 bytes as big-endian
  integers.  This is the decoding the specification's packing property speaks of; the
  repository has no decoder of its own.
\<close>

definition unpack_pair :: "bytes \<Rightarrow> int \<times> int" where
  "unpack_pair b = (from_bytes_big (take 16 b), from_bytes_big (drop 16 b))"

section \<open>Facts about the byte encoding\<close>

lemma shift_or_add:
  assumes "0 \<le> c" "c < 2 ^ n"
  shows "push_bit n (v::int) OR c = v * 2 ^ n + c"
proof -
  have c: "take_bit n c = c" using assms by (simp add: take_bit_int_eq_self)
  have "\<not> bit (push_bit n v) m \<or> \<not> bit c m" for m
  proof (cases "m < n")
    case True then show ?thesis by (simp add: bit_push_bit_iff)
  next
    case False
    have "bit c m = bit (take_bit n c) m" by (simp add: c)
    with False show ?thesis by (simp add: bit_take_bit_iff)
  qed
  then have "push_bit n v + c = push_bit n v OR c" by (rule disjunctive_add)
  then show ?thesis by (simp add: push_bit_eq_mult)
qed

lemma length_be_bytes [simp]: "length (be_bytes l n) = l"
  by (induction l arbitrary: n) auto

lemma be_bytes_add: "be_bytes (a + b) n = be_bytes a (n div 256 ^ b) @ be_bytes b n"
proof (induction b arbitrary: n)
  case 0 show ?case by simp
next
  case (Suc b)
  have "(n div 256) div 256 ^ b = n div 256 ^ Suc b"
    by (simp add: zdiv_zmult2_eq)
  with Suc show ?case by simp
qed

lemma from_bytes_big_snoc: "from_bytes_big (bs @ [b]) = from_bytes_big bs * 256 + uint b"
  by (simp add: from_bytes_big_def)

lemma from_be_bytes: "from_bytes_big (be_bytes l n) = n mod 256 ^ l"
proof (induction l arbitrary: n)
  case 0 show ?case by (simp add: from_bytes_big_def)
next
  case (Suc l)
  have u: "uint (word_of_int n :: byte) = n mod 256"
    by (simp add: uint_word_of_int)
  have "from_bytes_big (be_bytes (Suc l) n) = ((n div 256) mod 256 ^ l) * 256 + n mod 256"
    using Suc by (simp add: from_bytes_big_snoc u)
  also have "\<dots> = n mod 256 ^ Suc l"
    by (simp add: zmod_zmult2_eq)
  finally show ?case .
qed

lemma be_bytes_cong:
  "n mod 256 ^ l = m mod 256 ^ l \<Longrightarrow> be_bytes l n = be_bytes l m"
proof (induction l arbitrary: n m)
  case 0 show ?case by simp
next
  case (Suc l)
  define P :: int where "P = 256 ^ l"
  have split: "k mod (256 * P) = 256 * (k div 256 mod P) + k mod 256" for k :: int
    unfolding P_def by (simp add: zmod_zmult2_eq)
  from Suc.prems have e: "256 * (n div 256 mod P) + n mod 256
      = 256 * (m div 256 mod P) + m mod 256"
    unfolding P_def by (simp add: zmod_zmult2_eq)
  have "(256 * (n div 256 mod P) + n mod 256) mod 256 = n mod 256" by simp
  moreover have "(256 * (m div 256 mod P) + m mod 256) mod 256 = m mod 256" by simp
  ultimately have lo: "n mod 256 = m mod 256" using e by simp
  with e have hi: "n div 256 mod 256 ^ l = m div 256 mod 256 ^ l" by (simp add: P_def)
  have w: "(word_of_int n :: byte) = word_of_int m"
    using lo by (simp add: word_of_int_eq_iff take_bit_eq_mod)
  show ?case using Suc.IH [OF hi] w by simp
qed

lemma pack_value:
  assumes "0 \<le> v" "v < 2 ^ 128" "0 \<le> c" "c < 2 ^ 128"
  shows "to_bytes (push_bit 128 v OR c) 32 = Inr (be_bytes 16 v @ be_bytes 16 c)"
proof -
  define M :: int where "M = 2 ^ 128"
  have M256: "(256::int) ^ 16 = M" unfolding M_def by simp
  have MM: "(256::int) ^ 32 = M * M" unfolding M_def by simp
  have Mpos: "0 < M" unfolding M_def by simp
  have vM: "v < M" "c < M" using assms by (simp_all add: M_def)
  let ?n = "v * M + c"
  have eq: "push_bit 128 v OR c = ?n" using assms by (simp add: shift_or_add M_def)
  have nonneg: "0 \<le> ?n" using assms Mpos by simp
  have "v * M \<le> (M - 1) * M" using vM Mpos by (intro mult_right_mono) auto
  then have lt: "?n < M * M" using vM by (simp add: algebra_simps)
  have d: "?n div M = v" using assms vM Mpos by simp
  have m: "?n mod M = c mod M" by simp
  have "be_bytes (16 + 16) ?n = be_bytes 16 (?n div 256 ^ 16) @ be_bytes 16 ?n"
    by (rule be_bytes_add)
  moreover have "be_bytes 16 ?n = be_bytes 16 c"
    by (rule be_bytes_cong) (simp only: M256 m)
  ultimately have "be_bytes 32 ?n = be_bytes 16 v @ be_bytes 16 c"
    by (simp only: M256 d) simp
  then show ?thesis using nonneg lt by (simp only: to_bytes_def eq MM) simp
qed

lemma unpack_be:
  assumes "0 \<le> v" "v < 2 ^ 128" "0 \<le> c" "c < 2 ^ 128"
  shows "unpack_pair (be_bytes 16 v @ be_bytes 16 c) = (v, c)"
proof -
  have M256: "(256::int) ^ 16 = 2 ^ 128" by simp
  have "v mod 256 ^ 16 = v" "c mod 256 ^ 16 = c"
    using assms by (simp_all only: M256 mod_pos_pos_trivial)
  then show ?thesis by (simp add: unpack_pair_def from_be_bytes)
qed

lemma packed_negative: "push_bit 128 (v::int) OR c < 0 \<longleftrightarrow> v < 0 \<or> c < 0"
  by simp

lemma packed_too_big_gen:
  assumes "0 \<le> v" "0 \<le> (c::int)"
  shows "2 ^ (n + n) \<le> push_bit n v OR c \<longleftrightarrow> 2 ^ n \<le> v \<or> 2 ^ (n + n) \<le> c"
proof -
  define M :: int where "M = 2 ^ n"
  have Mpos: "0 < M" by (simp add: M_def)
  have MM: "(2::int) ^ (n + n) = M * M" by (simp add: M_def power_add)
  have pb: "push_bit n v = v * M" by (simp add: push_bit_eq_mult M_def)
  have nn: "0 \<le> v * M" using assms Mpos by simp
  have "M * M \<le> v * M OR c \<longleftrightarrow> M \<le> v \<or> M * M \<le> c"
  proof (cases "M \<le> v \<or> M * M \<le> c")
    case True
    then have "M * M \<le> v * M OR c"
    proof
      assume "M \<le> v"
      then have "M * M \<le> v * M" using Mpos by (intro mult_right_mono) auto
      also have "v * M \<le> v * M OR c" using assms(2) by (rule or_greater_eq)
      finally show ?thesis .
    next
      assume "M * M \<le> c"
      also have "c \<le> c OR v * M" using nn by (rule or_greater_eq)
      finally show ?thesis by (simp add: or.commute)
    qed
    with True show ?thesis by simp
  next
    case False
    then have v: "v < M" and c: "c < M * M" by auto
    have "v * M < M * M" using v Mpos by (rule mult_strict_right_mono)
    then have "v * M < 2 ^ (n + n)" "c < 2 ^ (n + n)" using c by (simp_all only: MM)
    then have "v * M OR c < 2 ^ (n + n)" using nn by (intro OR_upper) auto
    then have "\<not> M * M \<le> v * M OR c" by (simp only: MM not_le)
    with False show ?thesis by simp
  qed
  then show ?thesis by (simp only: pb MM M_def)
qed

lemma packed_too_big:
  assumes "0 \<le> v" "0 \<le> (c::int)"
  shows "2 ^ 256 \<le> push_bit 128 v OR c \<longleftrightarrow> 2 ^ 128 \<le> v \<or> 2 ^ 256 \<le> c"
  using packed_too_big_gen [OF assms, of 128] by simp

lemma to_bytes_packed:
  "to_bytes (push_bit 128 v OR c) 32 =
     (if v < 0 \<or> c < 0 \<or> 2 ^ 128 \<le> v \<or> 2 ^ 256 \<le> c then Inl OverflowError
      else Inr (be_bytes 32 (push_bit 128 v OR c)))"
proof -
  define x where "x = push_bit 128 v OR c"
  define bad where "bad \<longleftrightarrow> v < 0 \<or> c < 0 \<or> 2 ^ 128 \<le> v \<or> 2 ^ 256 \<le> c"
  have p: "(256::int) ^ 32 = 2 ^ 256" by simp
  have "x < 0 \<or> 2 ^ 256 \<le> x \<longleftrightarrow> bad"
  proof (cases "v < 0 \<or> c < 0")
    case True
    then have "x < 0" by (simp add: x_def)
    with True show ?thesis by (auto simp: bad_def)
  next
    case False
    then have nn: "0 \<le> v" "0 \<le> c" by auto
    then have "\<not> x < 0" by (simp add: x_def)
    with False packed_too_big [OF nn] show ?thesis
      unfolding x_def bad_def by blast
  qed
  then have "to_bytes x 32 = (if bad then Inl OverflowError else Inr (be_bytes 32 x))"
    unfolding to_bytes_def p by auto
  then show ?thesis by (simp only: x_def bad_def)
qed

lemma resolve_fees_supplied: "resolve_fees env (Some f) (Some p) = Inr (f, p)"
  by (simp add: resolve_fees_def)

section \<open>The operation builder: packing\<close>

text \<open>
  Claim C5.  When the four gas and fee values are supplied and each lies in
  \<open>[0, 2^128 - 1]\<close> (and a nonce is supplied or fetched), \<^verbatim>\<open>build_user_operation\<close>
  returns a record whose \<^verbatim>\<open>accountGasLimits\<close> is
  \<^verbatim>\<open>((verification_gas_limit << 128) | call_gas_limit).to_bytes(32, 'big')\<close> and whose
  \<^verbatim>\<open>gasFees\<close> is \<^verbatim>\<open>((max_priority_fee_per_gas << 128) | max_fee_per_gas).to_bytes(32, 'big')\<close>;
  both fields are 32 bytes long and decode back to the exact input pairs.
\<close>

theorem packing_correct:
  assumes nonce: "resolve_nonce env nonce0 = Inr n"
    and vgl: "0 \<le> verification_gas_limit" "verification_gas_limit < 2 ^ 128"
    and cgl: "0 \<le> call_gas_limit" "call_gas_limit < 2 ^ 128"
    and mp: "0 \<le> max_priority_fee_per_gas" "max_priority_fee_per_gas < 2 ^ 128"
    and mf: "0 \<le> max_fee_per_gas" "max_fee_per_gas < 2 ^ 128"
  shows "\<exists>op. build_user_operation env contract_address call_data nonce0
             (Some max_fee_per_gas) (Some max_priority_fee_per_gas) call_gas_limit
             verification_gas_limit pre_verification_gas paymaster_and_data sig = Inr op
           \<and> to_bytes (push_bit 128 verification_gas_limit OR call_gas_limit) 32
               = Inr (accountGasLimits op)
           \<and> to_bytes (push_bit 128 max_priority_fee_per_gas OR max_fee_per_gas) 32
               = Inr (gasFees op)
           \<and> length (accountGasLimits op) = 32 \<and> length (gasFees op) = 32
           \<and> unpack_pair (accountGasLimits op) = (verification_gas_limit, call_gas_limit)
           \<and> unpack_pair (gasFees op) = (max_priority_fee_per_gas, max_fee_per_gas)"
proof -
  note a = pack_value [OF vgl cgl]
  note g = pack_value [OF mp mf]
  show ?thesis
    unfolding build_user_operation_def
    by (simp only: nonce resolve_fees_supplied a g Let_def sum.case prod.case)
       (simp add: unpack_be [OF vgl cgl] unpack_be [OF mp mf])
qed

text \<open>
  The packing theorem at the boundary values \<open>0\<close> and \<open>2^128 - 1\<close>, with the nonce
  fetched from the provider.
\<close>

theorem packing_correct_witness:
  "\<exists>op. build_user_operation \<lparr>get_nonce = Inr 5, get_gas_prices = Inl ExternalError\<rparr>
           ''0xAcc'' [1, 2] None (Some (2 ^ 128 - 1)) (Some 0) 100000 (2 ^ 128 - 1) 21000 [] []
           = Inr op
       \<and> unpack_pair (accountGasLimits op) = (2 ^ 128 - 1, 100000)
       \<and> unpack_pair (gasFees op) = (0, 2 ^ 128 - 1)"
proof -
  have n: "resolve_nonce \<lparr>get_nonce = Inr 5, get_gas_prices = Inl ExternalError\<rparr> None = Inr 5"
    by (simp add: resolve_nonce_def)
  from packing_correct [OF n, of "2 ^ 128 - 1" 100000 0 "2 ^ 128 - 1" "''0xAcc''" "[1, 2]" 21000 "[]" "[]"]
  show ?thesis by auto
qed


section \<open>The operation builder: values that do not fit\<close>

text \<open>
  The builder has no range check on the gas and fee values: its only failure on them is
  the \<^verbatim>\<open>OverflowError\<close> of \<^verbatim>\<open>to_bytes(32, 'big')\<close> on the packed integer.
\<close>

lemma build_overflow_iff:
  assumes nonce: "resolve_nonce env nonce0 = Inr n"
  shows "build_user_operation env contract_address call_data nonce0
             (Some max_fee_per_gas) (Some max_priority_fee_per_gas) call_gas_limit
             verification_gas_limit pre_verification_gas paymaster_and_data sig =
         (if verification_gas_limit < 0 \<or> call_gas_limit < 0
             \<or> 2 ^ 128 \<le> verification_gas_limit \<or> 2 ^ 256 \<le> call_gas_limit
             \<or> max_priority_fee_per_gas < 0 \<or> max_fee_per_gas < 0
             \<or> 2 ^ 128 \<le> max_priority_fee_per_gas \<or> 2 ^ 256 \<le> max_fee_per_gas
          then Inl OverflowError
          else Inr \<lparr> sender = contract_address, nonce = n, initCode = [],
                 callData = call_data,
                 accountGasLimits = be_bytes 32 (push_bit 128 verification_gas_limit OR call_gas_limit),
                 preVerificationGas = pre_verification_gas,
                 gasFees = be_bytes 32 (push_bit 128 max_priority_fee_per_gas OR max_fee_per_gas),
                 paymasterAndData = paymaster_and_data, signature = sig \<rparr>)"
  unfolding build_user_operation_def
  by (simp only: nonce resolve_fees_supplied to_bytes_packed Let_def sum.case prod.case)
     simp


text \<open>
  Claim C6.  The builder must fail when one of the four values does not fit in 128
  bits; the comment of the code says \<^verbatim>\<open>accountGasLimits = verificationGasLimit || callGasLimit\<close>,
  two halves of 16 bytes.  With \<^verbatim>\<open>call_gas_limit = 2^128\<close> and
  \<^verbatim>\<open>verification_gas_limit = 0\<close> the packed integer is \<open>2^128\<close>, which fits in 32 bytes:
  no error is raised and a record is returned whose upper half, the verification gas
  limit, reads 1.  It is the record returned for \<^verbatim>\<open>call_gas_limit = 0\<close> and
  \<^verbatim>\<open>verification_gas_limit = 1\<close>.
\<close>

theorem build_accepts_wide_call_gas_limit:
  "build_user_operation \<lparr>get_nonce = Inr 0, get_gas_prices = Inr (2, 1)\<rparr>
      ''0xAcc'' [] (Some 0) (Some 2) (Some 1) (2 ^ 128) 0 21000 [] []
   = Inr \<lparr> sender = ''0xAcc'', nonce = 0, initCode = [], callData = [],
            accountGasLimits = replicate 15 0 @ [1] @ replicate 16 0,
            preVerificationGas = 21000,
            gasFees = replicate 15 0 @ [1] @ replicate 15 0 @ [2],
            paymasterAndData = [], signature = [] \<rparr>
   \<and> build_user_operation \<lparr>get_nonce = Inr 0, get_gas_prices = Inr (2, 1)\<rparr>
      ''0xAcc'' [] (Some 0) (Some 2) (Some 1) 0 1 21000 [] []
   = build_user_operation \<lparr>get_nonce = Inr 0, get_gas_prices = Inr (2, 1)\<rparr>
      ''0xAcc'' [] (Some 0) (Some 2) (Some 1) (2 ^ 128) 0 21000 [] []"
  by code_simp
section \<open>Base64 decodes what it encodes\<close>

lemma m3: "(3::byte) = mask 2" and m15: "(15::byte) = mask 4" and m63: "(63::byte) = mask 6"
  by (simp_all add: mask_eq_exp_minus_1)


lemma byte_eqI:
  assumes "\<And>n. n \<in> {0, 1, 2, 3, 4, 5, 6, 7} \<Longrightarrow> bit a n = bit b n"
  shows "a = (b::byte)"
proof (rule bit_eqI)
  fix n assume "possible_bit TYPE(byte) n"
  then have "n < 8" by (simp add: possible_bit_def)
  then have "n \<in> {0, 1, 2, 3, 4, 5, 6, 7}" by auto
  then show "bit a n = bit b n" by (rule assms)
qed

lemma byte_high: "8 \<le> n \<Longrightarrow> \<not> bit (w::byte) n"
  by (auto dest: bit_imp_le_length)

lemma suc_nums: "Suc (Suc 0) = 2" "Suc (Suc (Suc 0)) = 3"
  by simp_all

lemma bits1: "push_bit 2 (drop_bit 2 a) OR drop_bit 4 (push_bit 4 (a AND 3) OR drop_bit 4 b) = (a::byte)"
  unfolding m3 m15 m63 by (rule byte_eqI) (auto simp: bit_simps byte_high suc_nums)

lemma bits1': "push_bit 2 (drop_bit 2 a) OR drop_bit 4 (push_bit 4 (a AND 3)) = (a::byte)"
  unfolding m3 m15 m63 by (rule byte_eqI) (auto simp: bit_simps byte_high suc_nums)

lemma left1: "(push_bit 4 (a AND 3) OR drop_bit 4 b) AND 15 = drop_bit 4 (b::byte)"
  unfolding m3 m15 m63 by (rule byte_eqI) (auto simp: bit_simps byte_high suc_nums)

lemma bits2: "push_bit 4 (drop_bit 4 b) OR drop_bit 2 (push_bit 2 (b AND 15) OR drop_bit 6 c) = (b::byte)"
  unfolding m3 m15 m63 by (rule byte_eqI) (auto simp: bit_simps byte_high suc_nums)

lemma bits2': "push_bit 4 (drop_bit 4 b) OR drop_bit 2 (push_bit 2 (b AND 15)) = (b::byte)"
  unfolding m3 m15 m63 by (rule byte_eqI) (auto simp: bit_simps byte_high suc_nums)

lemma left2: "(push_bit 2 (b AND 15) OR drop_bit 6 c) AND 3 = drop_bit 6 (c::byte)"
  unfolding m3 m15 m63 by (rule byte_eqI) (auto simp: bit_simps byte_high suc_nums)

lemma bits3: "push_bit 6 (drop_bit 6 c) OR (c AND 63) = (c::byte)"
  unfolding m3 m15 m63 by (rule byte_eqI) (auto simp: bit_simps byte_high suc_nums)


lemma sextet_enum:
  assumes "(i::byte) < 64"
  shows "i \<in> set (map of_nat [0..<64])"
proof -
  have "unat i < 64" using assms by (simp add: word_less_nat_alt)
  then have "unat i \<in> set [0..<64]" by simp
  then have "(of_nat (unat i) :: byte) \<in> of_nat ` set [0..<64]" by (rule imageI)
  then show ?thesis by simp
qed

lemma table_all:
  "list_all (\<lambda>i. table_a2b_base64 (table_b2a_base64 i) = Some i \<and> table_b2a_base64 i \<noteq> BASE64_PAD)
     (map of_nat [0..<64])"
  by code_simp

lemma table_inverse:
  assumes "i < 64"
  shows "table_a2b_base64 (table_b2a_base64 i) = Some i" and "table_b2a_base64 i \<noteq> BASE64_PAD"
  using table_all sextet_enum [OF assms] by (auto simp only: list_all_iff)

lemma sextet_lt: "x AND mask 6 = (x::byte) \<Longrightarrow> x < 64"
  using and_mask_less_size [of 6 x] by (simp add: word_size)

lemma s0: "drop_bit 2 (a::byte) < 64"
  by (rule sextet_lt, rule byte_eqI) (auto simp: bit_simps byte_high suc_nums)

lemma s1: "push_bit 4 (a AND 3) OR drop_bit 4 (b::byte) < 64"
  unfolding m3 by (rule sextet_lt, rule byte_eqI) (auto simp: bit_simps byte_high suc_nums)

lemma s1': "push_bit 4 ((a::byte) AND 3) < 64"
  unfolding m3 by (rule sextet_lt, rule byte_eqI) (auto simp: bit_simps byte_high suc_nums)

lemma s2: "push_bit 2 (b AND 15) OR drop_bit 6 (c::byte) < 64"
  unfolding m15 by (rule sextet_lt, rule byte_eqI) (auto simp: bit_simps byte_high suc_nums)

lemma s2': "push_bit 2 ((b::byte) AND 15) < 64"
  unfolding m15 by (rule sextet_lt, rule byte_eqI) (auto simp: bit_simps byte_high suc_nums)

lemma s3: "(c::byte) AND 63 < 64"
  unfolding m63 by (rule sextet_lt, rule byte_eqI) (auto simp: bit_simps byte_high suc_nums)


lemma a2b_data0:
  assumes "i < 64"
  shows "a2b_base64 (table_b2a_base64 i # rest) 0 lc p out = a2b_base64 rest 1 i 0 out"
  using table_inverse [OF assms] by simp

lemma a2b_data1:
  assumes "i < 64"
  shows "a2b_base64 (table_b2a_base64 i # rest) 1 lc p out =
         a2b_base64 rest 2 (i AND 15) 0 (out @ [push_bit 2 lc OR drop_bit 4 i])"
  using table_inverse [OF assms] by simp

lemma a2b_data2:
  assumes "i < 64"
  shows "a2b_base64 (table_b2a_base64 i # rest) 2 lc p out =
         a2b_base64 rest 3 (i AND 3) 0 (out @ [push_bit 4 lc OR drop_bit 2 i])"
  using table_inverse [OF assms] by simp

lemma a2b_data3:
  assumes "i < 64"
  shows "a2b_base64 (table_b2a_base64 i # rest) 3 lc p out =
         a2b_base64 rest 0 0 0 (out @ [push_bit 6 lc OR i])"
  using table_inverse [OF assms] by simp

lemma a2b_pad2: "a2b_base64 (BASE64_PAD # BASE64_PAD # rest) 2 lc 0 out = Some out"
  by simp

lemma a2b_pad3: "a2b_base64 (BASE64_PAD # rest) 3 lc 0 out = Some out"
  by simp

lemma a2b_b64encode: "a2b_base64 (b64encode xs) 0 lc p out = Some (out @ xs)"
proof (induction xs arbitrary: lc p out rule: b64encode.induct)
  case 1
  show ?case by simp
next
  case (2 a)
  have "a2b_base64 (b64encode [a]) 0 lc p out =
        Some (out @ [push_bit 2 (drop_bit 2 a) OR drop_bit 4 (push_bit 4 (a AND 3))])"
    by (simp only: b64encode.simps a2b_data0 [OF s0] a2b_data1 [OF s1'] a2b_pad2)
  then show ?case by (simp only: bits1')
next
  case (3 a b)
  have "a2b_base64 (b64encode [a, b]) 0 lc p out =
        Some ((out @ [push_bit 2 (drop_bit 2 a) OR drop_bit 4 (push_bit 4 (a AND 3) OR drop_bit 4 b)])
          @ [push_bit 4 ((push_bit 4 (a AND 3) OR drop_bit 4 b) AND 15)
               OR drop_bit 2 (push_bit 2 (b AND 15))])"
    by (simp only: b64encode.simps a2b_data0 [OF s0] a2b_data1 [OF s1] a2b_data2 [OF s2'] a2b_pad3)
  then show ?case by (simp only: bits1 left1 bits2') simp
next
  case (4 a b c rest)
  have "a2b_base64 (b64encode (a # b # c # rest)) 0 lc p out =
        a2b_base64 (b64encode rest) 0 0 0
          (((out @ [push_bit 2 (drop_bit 2 a) OR drop_bit 4 (push_bit 4 (a AND 3) OR drop_bit 4 b)])
            @ [push_bit 4 ((push_bit 4 (a AND 3) OR drop_bit 4 b) AND 15)
                 OR drop_bit 2 (push_bit 2 (b AND 15) OR drop_bit 6 c)])
            @ [push_bit 6 ((push_bit 2 (b AND 15) OR drop_bit 6 c) AND 3) OR (c AND 63)])"
    by (simp only: b64encode.simps append.simps a2b_data0 [OF s0] a2b_data1 [OF s1]
        a2b_data2 [OF s2] a2b_data3 [OF s3])
  then show ?case by (simp only: bits1 left1 bits2 left2 bits3 "4.IH") simp
qed

lemma b64decode_b64encode: "b64decode (b64encode xs) = Some xs"
  by (simp add: b64decode_def a2b_b64encode)

section \<open>Facts about HMAC, PBKDF2 and CFB\<close>

lemma length_xor_bytes [simp]: "length (xor_bytes xs ys) = min (length xs) (length ys)"
  by (simp add: xor_bytes_def)

lemma xor_bytes_cancel:
  "length xs \<le> length ys \<Longrightarrow> xor_bytes (xor_bytes xs ys) ys = xs"
proof (induction xs arbitrary: ys)
  case Nil
  show ?case by (simp add: xor_bytes_def)
next
  case (Cons x xs)
  then obtain y ys' where ys: "ys = y # ys'" by (cases ys) auto
  with Cons.prems have "length xs \<le> length ys'" by simp
  from Cons.IH [OF this] show ?case
    by (simp add: ys xor_bytes_def xor.assoc)
qed

lemma cfb_decrypt_unfold:
  "cs \<noteq> [] \<Longrightarrow> cfb_decrypt L key fb cs =
     xor_bytes (take 16 cs) (aes_block L key fb) @ cfb_decrypt L key (take 16 cs) (drop 16 cs)"
  by (cases cs) simp_all

lemma cfb_roundtrip:
  "lib_ok L \<Longrightarrow> cfb_decrypt L key fb (cfb_encrypt L key fb m) = m"
proof (induction L key fb m rule: cfb_encrypt.induct)
  case (1 L key fb)
  show ?case by simp
next
  case (2 L key fb p ps)
  define m where "m = p # ps"
  define e where "e = aes_block L key fb"
  define c where "c = xor_bytes (take 16 m) e"
  define rest where "rest = cfb_encrypt L key c (drop 16 m)"
  have le: "length e = 16" using "2.prems" by (simp add: e_def lib_ok_def)
  have lc: "length c = min (length m) 16" by (simp add: c_def le)
  have ne: "c \<noteq> []" using lc by (auto simp: m_def)
  have enc: "cfb_encrypt L key fb m = c @ rest"
    by (simp add: m_def c_def rest_def e_def Let_def)
  have rest_nil: "length m \<le> 16 \<Longrightarrow> rest = []" by (simp add: rest_def)
  have tk: "take 16 (c @ rest) = c"
  proof (cases "length m \<le> 16")
    case True
    then show ?thesis using lc by (simp add: rest_nil)
  next
    case False
    then have "length c = 16" using lc by simp
    then show ?thesis by simp
  qed
  have dr: "drop 16 (c @ rest) = rest"
  proof (cases "length m \<le> 16")
    case True
    then show ?thesis using lc by (simp add: rest_nil)
  next
    case False
    then have "length c = 16" using lc by simp
    then show ?thesis by simp
  qed
  have x: "xor_bytes c e = take 16 m"
    unfolding c_def by (rule xor_bytes_cancel) (simp add: le)
  have ih: "cfb_decrypt L key c rest = drop 16 m"
    unfolding rest_def using "2.IH" [of c] "2.prems" by (simp add: c_def m_def e_def)
  have ne2: "c @ rest \<noteq> []" using ne by simp
  have "cfb_decrypt L key fb (c @ rest) = xor_bytes c e @ cfb_decrypt L key c rest"
    by (simp only: cfb_decrypt_unfold [OF ne2] tk dr e_def)
  also have "\<dots> = take 16 m @ drop 16 m" by (simp only: x ih)
  finally have "cfb_decrypt L key fb (cfb_encrypt L key fb m) = m"
    by (simp only: enc append_take_drop_id)
  then show ?case unfolding m_def .
qed


section \<open>Facts about crypto\_utils.py\<close>

lemma length_hmac: "lib_ok L \<Longrightarrow> length (hmac_sha256 L key msg) = 32"
  by (simp add: hmac_sha256_def lib_ok_def Let_def)

lemma length_pbkdf2_rounds:
  "lib_ok L \<Longrightarrow> length t = 32 \<Longrightarrow> length (pbkdf2_rounds L password n u t) = 32"
  by (induction n arbitrary: u t) (simp_all add: Let_def length_hmac)

lemma length_pbkdf2_block: "lib_ok L \<Longrightarrow> length (pbkdf2_block L password salt c i) = 32"
  by (simp add: pbkdf2_block_def Let_def length_pbkdf2_rounds length_hmac)

lemma pbkdf2_32:
  "pbkdf2_hmac_sha256 L password salt c 32 = take 32 (pbkdf2_block L password salt c 1)"
proof -
  have "[1..<Suc ((32 + 31) div 32)] = [1::nat]" by (simp add: upt_rec)
  then show ?thesis by (simp add: pbkdf2_hmac_sha256_def)
qed

lemma length_pbkdf2_32: "lib_ok L \<Longrightarrow> length (pbkdf2_hmac_sha256 L password salt c 32) = 32"
  by (simp add: pbkdf2_32 length_pbkdf2_block)

lemma derive_key_Some:
  "encode password = Some pw \<Longrightarrow>
   derive_key L password salt len = Inr (pbkdf2_hmac_sha256 L pw salt 390000 len)"
  by (simp add: derive_key_def)

lemma derive_key_None:
  "encode password = None \<Longrightarrow> derive_key L password salt len = Inl (CryptoError KDFFailed)"
  by (simp add: derive_key_def)

lemma derive_key_length:
  "lib_ok L \<Longrightarrow> derive_key L password salt 32 = Inr k \<Longrightarrow> length k = 32"
  by (auto simp: derive_key_def length_pbkdf2_32 split: option.splits)

lemma aes_encrypt_None:
  "encode password = None \<Longrightarrow>
   aes_encrypt L salt iv data password = Inl (CryptoError EncryptFailed)"
  by (simp add: aes_encrypt_def aes_encrypt_keys_def derive_key_None)

lemma aes_encrypt_eq:
  assumes ok: "lib_ok L" and li: "length iv = 16" and dk: "derive_key L password salt 32 = Inr k"
  shows "aes_encrypt L salt iv data password =
         Inr (b64encode (salt @ iv @ cfb_encrypt L k iv data
            @ hmac_sha256 L k (salt @ iv @ cfb_encrypt L k iv data)))"
proof -
  from derive_key_length [OF ok dk] have "length k = 32" .
  then show ?thesis
    by (simp add: aes_encrypt_def aes_encrypt_keys_def dk aes_cfb_encrypt_def li Let_def)
qed

lemma aes_decrypt_bytes:
  assumes ok: "lib_ok L" and len: "64 \<le> length raw"
    and dk: "derive_key L password (take 16 raw) 32 = Inr k"
  shows "aes_decrypt L (b64encode raw) password =
         (if drop (length raw - 32) raw
               \<noteq> hmac_sha256 L k (take (length raw - 32) raw)
          then Inl HMACVerificationFailed
          else Inr (cfb_decrypt L k (take 16 (drop 16 raw))
                      (drop 32 (take (length raw - 32) raw))))"
proof -
  from derive_key_length [OF ok dk] have lk: "length k = 32" .
  have 5: "\<not> length raw < 16 + 16 + 32" using len by simp
  define iv where "iv = take 16 (drop 16 raw)"
  define c where "c = drop 32 (take (length raw - 32) raw)"
  have li: "length iv = 16" using len by (simp add: iv_def)
  have pre: "take 16 raw @ iv @ c = take (length raw - 32) raw"
  proof -
    have "take 16 raw @ iv = take 32 raw"
      unfolding iv_def by (metis take_add numeral_Bit0)
    moreover have "take 32 raw = take 32 (take (length raw - 32) raw)" using len by simp
    ultimately show ?thesis
      unfolding c_def by (simp only: append_assoc [symmetric] append_take_drop_id)
  qed
  have cfb: "aes_cfb_decrypt L k iv c = Inr (cfb_decrypt L k iv c)"
    by (simp add: aes_cfb_decrypt_def lk li)
  have "aes_decrypt L (b64encode raw) password =
        (if drop (length raw - 32) raw \<noteq> hmac_sha256 L k (take 16 raw @ iv @ c)
         then Inl HMACVerificationFailed
         else (case aes_cfb_decrypt L k iv c of
                 Inl e \<Rightarrow> Inl WrongPassword | Inr plaintext \<Rightarrow> Inr plaintext))"
    unfolding iv_def c_def
    by (simp only: aes_decrypt_def b64decode_b64encode option.case 5 if_False Let_def dk sum.case)
  then show ?thesis
    unfolding pre cfb by (simp only: sum.case iv_def c_def)
qed


lemma aes_decrypt_raw:
  assumes ok: "lib_ok L" and ls: "length salt = 16" and li: "length iv = 16"
    and lm: "length mac = 32" and dk: "derive_key L password salt 32 = Inr k"
  shows "aes_decrypt L (b64encode (salt @ iv @ c @ mac)) password =
         (if mac \<noteq> hmac_sha256 L k (salt @ iv @ c) then Inl HMACVerificationFailed
          else Inr (cfb_decrypt L k iv c))"
proof -
  define raw where "raw = salt @ iv @ c @ mac"
  have len: "64 \<le> length raw" by (simp add: raw_def ls li lm)
  have 1: "take 16 raw = salt" by (simp add: raw_def ls)
  have 2: "take 16 (drop 16 raw) = iv" by (simp add: raw_def ls li)
  have 3: "drop 32 (salt @ iv @ c) = c" by (simp add: ls li)
  have 4: "drop (length raw - 32) raw = mac" by (simp add: raw_def ls li lm)
  have 6: "take (length raw - 32) raw = salt @ iv @ c" by (simp add: raw_def ls li lm)
  from dk have dk': "derive_key L password (take 16 raw) 32 = Inr k" by (simp only: 1)
  show ?thesis
    using aes_decrypt_bytes [OF ok len dk'] by (simp only: raw_def [symmetric] 2 4 6 3)
qed

lemma aes_decrypt_unencodable:
  assumes "encode password = None" and "b64decode enc_data = Some raw" and "64 \<le> length raw"
  shows "aes_decrypt L enc_data password = Inl WrongPassword"
  using assms by (simp add: aes_decrypt_def derive_key_None Let_def)

subsection \<open>The stand-in library\<close>

text \<open>
  With the stand-in hash, HMAC under a key of at most 64 bytes depends on the first key
  byte and on the first 16 bytes of the message, and PBKDF2 has a closed form.
\<close>

lemma lib_ok_toy: "lib_ok toy_lib"
  by (auto simp: lib_ok_def toy_lib_def)

lemma hmac_block_key_short:
  "length key \<le> 64 \<Longrightarrow> hmac_block_key L key = key @ replicate (64 - length key) 0"
  by (simp add: hmac_block_key_def)

lemma take1_block:
  assumes "length key \<le> 64"
  shows "take 1 (map f (key @ replicate (64 - length key) 0) @ x) = [f (hd (key @ [0]))]"
proof (cases key)
  case Nil
  have "replicate 64 (0::byte) = 0 # replicate 63 0" by (simp add: replicate_Suc [symmetric] del: replicate_Suc)
  then show ?thesis using Nil by simp
next
  case (Cons a as)
  then show ?thesis by simp
qed

lemma sha256_toy_block:
  assumes "length key \<le> 64"
  shows "sha256 toy_lib (map f (key @ replicate (64 - length key) 0) @ x)
           = replicate 32 (f (hd (key @ [0])) + sum_list (take 16 x))"
proof -
  have "drop 64 (map f (key @ replicate (64 - length key) 0) @ x) = x"
    using assms by simp
  then show ?thesis
    by (simp only: toy_lib_def crypto_lib.simps take1_block [OF assms]) simp
qed

lemma hmac_toy:
  assumes "length key \<le> 64"
  shows "hmac_sha256 toy_lib key msg =
           replicate 32 ((hd (key @ [0]) XOR 0x5c)
                          + 16 * ((hd (key @ [0]) XOR 0x36) + sum_list (take 16 msg)))"
proof -
  have "sum_list (take 16 (replicate 32 s)) = 16 * s" for s :: byte
    by (simp add: sum_list_replicate)
  then show ?thesis
    by (simp only: hmac_sha256_def hmac_block_key_short [OF assms] Let_def
          sha256_toy_block [OF assms])
qed

lemma hmac_toy_rep:
  assumes "length key \<le> 64"
  shows "hmac_sha256 toy_lib key (replicate 32 y) =
           replicate 32 ((hd (key @ [0]) XOR 0x5c) + 16 * (hd (key @ [0]) XOR 0x36))"
proof -
  have "sum_list (take 16 (replicate 32 y)) = 16 * y"
    by (simp add: sum_list_replicate)
  moreover have "16 * (a + 16 * y) = 16 * a" for a :: byte
  proof -
    have z: "(256 :: byte) = 0" by (simp add: word_eq_iff_unsigned [where ?'a = nat])
    have "16 * (a + 16 * y) = 16 * a + 256 * y" by (simp add: algebra_simps)
    then show ?thesis by (simp only: z mult_zero_left add_0_right)
  qed
  ultimately show ?thesis by (simp only: hmac_toy [OF assms])
qed

lemma xor_bytes_replicate:
  "xor_bytes (replicate n a) (replicate n b) = replicate n (a XOR b)"
  by (simp add: xor_bytes_def zip_replicate)

lemma pbkdf2_rounds_toy:
  assumes "length key \<le> 64"
  shows "pbkdf2_rounds toy_lib key n (replicate 32 y) (replicate 32 t) =
           replicate 32 (if even n then t
              else t XOR ((hd (key @ [0]) XOR 0x5c) + 16 * (hd (key @ [0]) XOR 0x36)))"
proof (induction n arbitrary: y t)
  case 0
  show ?case by simp
next
  case (Suc n)
  show ?case
    by (simp only: pbkdf2_rounds.simps Let_def hmac_toy_rep [OF assms] xor_bytes_replicate Suc.IH)
       (simp add: xor.assoc)
qed

lemma pbkdf2_toy:
  assumes "length key \<le> 64" and "length salt = 16"
  shows "pbkdf2_hmac_sha256 toy_lib key salt 390000 32 =
           replicate 32
             (((hd (key @ [0]) XOR 0x5c) + 16 * ((hd (key @ [0]) XOR 0x36) + sum_list salt))
              XOR ((hd (key @ [0]) XOR 0x5c) + 16 * (hd (key @ [0]) XOR 0x36)))"
proof -
  have t: "take 16 (salt @ x) = salt" for x :: bytes using assms(2) by simp
  have o: "\<not> even (390000 - 1 :: nat)" by simp
  show ?thesis
    by (simp only: pbkdf2_32 pbkdf2_block_def Let_def hmac_toy [OF assms(1)] t
          pbkdf2_rounds_toy [OF assms(1)] o if_False)
       simp
qed

subsection \<open>Passwords with the same HMAC block key\<close>

text \<open>
  HMAC sees its key only through the 64-byte block key, so PBKDF2 derives the same key
  from two passwords with the same block key; a password shorter than the block and the
  same password followed by a NUL byte are such a pair.
\<close>

lemma hmac_same_block_key:
  "hmac_block_key L p' = hmac_block_key L p \<Longrightarrow> hmac_sha256 L p' msg = hmac_sha256 L p msg"
  by (simp add: hmac_sha256_def)

lemma pbkdf2_rounds_cong:
  assumes "\<And>msg. hmac_sha256 L p' msg = hmac_sha256 L p msg"
  shows "pbkdf2_rounds L p' n u t = pbkdf2_rounds L p n u t"
  by (induction n arbitrary: u t) (simp_all add: assms Let_def)

lemma pbkdf2_same_block_key:
  assumes "hmac_block_key L p' = hmac_block_key L p"
  shows "pbkdf2_hmac_sha256 L p' salt c len = pbkdf2_hmac_sha256 L p salt c len"
proof -
  have h: "hmac_sha256 L p' msg = hmac_sha256 L p msg" for msg
    using assms by (rule hmac_same_block_key)
  have "pbkdf2_block L p' salt c i = pbkdf2_block L p salt c i" for i
    by (simp add: pbkdf2_block_def h pbkdf2_rounds_cong [of L p' p, OF h])
  then have "pbkdf2_block L p' salt c = pbkdf2_block L p salt c" by (rule ext)
  then show ?thesis by (simp only: pbkdf2_hmac_sha256_def)
qed

lemma hmac_block_key_nul:
  assumes "length key < 64"
  shows "hmac_block_key L (key @ [0]) = hmac_block_key L key"
proof -
  have "64 - length key = Suc (63 - length key)" using assms by simp
  then have "replicate (64 - length key) (0::byte) = 0 # replicate (63 - length key) 0"
    by (simp only: replicate_Suc)
  then show ?thesis using assms by (simp add: hmac_block_key_def Let_def)
qed

lemma encode_append:
  "encode (xs @ ys) =
     (case encode xs of None \<Rightarrow> None
      | Some a \<Rightarrow> (case encode ys of None \<Rightarrow> None | Some b \<Rightarrow> Some (a @ b)))"
  by (induction xs) (auto split: option.splits)

lemma encode_nul: "encode password = Some pw \<Longrightarrow> encode (password @ [0]) = Some (pw @ [0])"
  by (simp add: encode_append utf8_char_def)

lemma encode_abc: "encode [97, 98, 99] = Some [97, 98, 99]"
  by (simp add: utf8_char_def)

lemma encode_bcd: "encode [98, 99, 100] = Some [98, 99, 100]"
  by (simp add: utf8_char_def)

lemma encode_surrogate: "encode [0xD800] = None"
  by (simp add: utf8_char_def)

lemma key_abc:
  "pbkdf2_hmac_sha256 toy_lib [97, 98, 99] (1 # replicate 15 0) 390000 32 = replicate 32 0x10"
  by (simp add: pbkdf2_toy sum_list_replicate)

lemma key_bcd:
  "pbkdf2_hmac_sha256 toy_lib [98, 99, 100] (1 # replicate 15 0) 390000 32 = replicate 32 0xF0"
  by (simp add: pbkdf2_toy sum_list_replicate)

lemma mac_abc_bcd:
  "hmac_sha256 toy_lib (replicate 32 0xF0) (1 # replicate 15 0 @ x)
     \<noteq> hmac_sha256 toy_lib (replicate 32 0x10) (1 # replicate 15 0 @ x)"
  by (simp add: hmac_toy)

subsection \<open>Encrypting and decrypting with two passwords\<close>

lemma encrypt_blob:
  assumes ok: "lib_ok L" and li: "length iv = 16" and e1: "encode p1 = Some pw1"
  shows "aes_encrypt L salt iv m p1 =
           (let k1 = pbkdf2_hmac_sha256 L pw1 salt 390000 32;
                c = cfb_encrypt L k1 iv m
            in Inr (b64encode (salt @ iv @ c @ hmac_sha256 L k1 (salt @ iv @ c))))"
  unfolding Let_def by (rule aes_encrypt_eq [OF ok li derive_key_Some [OF e1]])

lemma decrypt_blob:
  assumes ok: "lib_ok L" and ls: "length salt = 16" and li: "length iv = 16"
    and lm: "length mac = 32"
  shows "aes_decrypt L (b64encode (salt @ iv @ c @ mac)) p2 =
           (case encode p2 of
              None \<Rightarrow> Inl WrongPassword
            | Some pw2 \<Rightarrow>
                (let k2 = pbkdf2_hmac_sha256 L pw2 salt 390000 32
                 in if mac \<noteq> hmac_sha256 L k2 (salt @ iv @ c) then Inl HMACVerificationFailed
                    else Inr (cfb_decrypt L k2 iv c)))"
proof (cases "encode p2")
  case None
  have "64 \<le> length (salt @ iv @ c @ mac)" by (simp add: ls li lm)
  from aes_decrypt_unencodable [OF None b64decode_b64encode this]
  show ?thesis by (simp add: None)
next
  case (Some pw2)
  from aes_decrypt_raw [OF ok ls li lm derive_key_Some [OF Some]]
  show ?thesis by (simp add: Some Let_def)
qed

lemma decrypt_encrypted:
  assumes ok: "lib_ok L" and ls: "length salt = 16" and li: "length iv = 16"
    and e1: "encode p1 = Some pw1" and enc: "aes_encrypt L salt iv m p1 = Inr blob"
  shows "aes_decrypt L blob p2 =
           (case encode p2 of
              None \<Rightarrow> Inl WrongPassword
            | Some pw2 \<Rightarrow>
                (let k1 = pbkdf2_hmac_sha256 L pw1 salt 390000 32;
                     k2 = pbkdf2_hmac_sha256 L pw2 salt 390000 32;
                     c = cfb_encrypt L k1 iv m
                 in if hmac_sha256 L k2 (salt @ iv @ c) = hmac_sha256 L k1 (salt @ iv @ c)
                    then Inr (cfb_decrypt L k2 iv c)
                    else Inl HMACVerificationFailed))"
proof -
  define k1 where "k1 = pbkdf2_hmac_sha256 L pw1 salt 390000 32"
  define c where "c = cfb_encrypt L k1 iv m"
  define mac where "mac = hmac_sha256 L k1 (salt @ iv @ c)"
  have lm: "length mac = 32" unfolding mac_def by (rule length_hmac [OF ok])
  from encrypt_blob [OF ok li e1, of salt m] enc
  have blob: "blob = b64encode (salt @ iv @ c @ mac)"
    by (simp add: Let_def k1_def c_def mac_def)
  show ?thesis
    unfolding blob decrypt_blob [OF ok ls li lm]
    by (auto simp: Let_def k1_def c_def mac_def split: option.splits)
qed

lemma decrypt_same_key:
  assumes ok: "lib_ok L" and ls: "length salt = 16" and li: "length iv = 16"
    and e1: "encode p1 = Some pw1" and e2: "encode p2 = Some pw2"
    and same: "pbkdf2_hmac_sha256 L pw2 salt 390000 32 = pbkdf2_hmac_sha256 L pw1 salt 390000 32"
    and enc: "aes_encrypt L salt iv m p1 = Inr blob"
  shows "aes_decrypt L blob p2 = Inr m"
  using decrypt_encrypted [OF ok ls li e1 enc, of p2]
  by (simp add: e2 same Let_def cfb_roundtrip [OF ok])

lemma encrypt_succeeds:
  assumes ok: "lib_ok L" and li: "length iv = 16" and e1: "encode p1 = Some pw1"
  shows "\<exists>blob. aes_encrypt L salt iv m p1 = Inr blob"
  using encrypt_blob [OF ok li e1, of salt m] by (simp add: Let_def)

text \<open>
  A password whose encoding is shorter than the 64-byte HMAC block and the same password
  followed by a NUL character derive the same key, whatever the hash function: the blob
  encrypted under the first decrypts under the second.
\<close>

lemma nul_suffix_decrypts:
  assumes ok: "lib_ok L" and ls: "length salt = 16" and li: "length iv = 16"
    and e1: "encode p1 = Some pw1" and short: "length pw1 < 64"
  shows "\<exists>blob. aes_encrypt L salt iv m p1 = Inr blob
               \<and> aes_decrypt L blob (p1 @ [0]) = Inr m"
proof -
  from encrypt_succeeds [OF ok li e1] obtain blob
    where enc: "aes_encrypt L salt iv m p1 = Inr blob" by blast
  have same: "pbkdf2_hmac_sha256 L (pw1 @ [0]) salt 390000 32
                = pbkdf2_hmac_sha256 L pw1 salt 390000 32"
    by (rule pbkdf2_same_block_key [OF hmac_block_key_nul [OF short]])
  from decrypt_same_key [OF ok ls li e1 encode_nul [OF e1] same enc] enc
  show ?thesis by blast
qed

section \<open>The cipher module: round trip, wrong password, key reuse\<close>

text \<open>
  Claim C1, as the code has it.  For every password that has a UTF-8 encoding, that is
  every \<^verbatim>\<open>str\<close> without a surrogate code point, and every plaintext \<open>m\<close>, whatever
  16-byte salt and 16-byte initialisation vector \<^verbatim>\<open>os.urandom\<close> returns, \<^verbatim>\<open>aes_encrypt\<close>
  returns a blob and \<^verbatim>\<open>aes_decrypt\<close> of that blob with the same password returns exactly
  \<open>m\<close>.  For a password without an encoding \<^verbatim>\<open>aes_encrypt\<close> raises \<^verbatim>\<open>CryptoError\<close>.  The
  hash function and the block cipher are arbitrary functions with the output lengths of
  SHA-256 and AES.
\<close>

theorem cipher_round_trip:
  assumes "lib_ok L" and "length salt = 16" and "length iv = 16"
  shows "(encode password \<noteq> None \<longrightarrow>
            (\<exists>blob. aes_encrypt L salt iv m password = Inr blob
                  \<and> aes_decrypt L blob password = Inr m))
       \<and> (encode password = None \<longrightarrow>
            aes_encrypt L salt iv m password = Inl (CryptoError EncryptFailed))"
proof (cases "encode password")
  case None
  then show ?thesis by (simp add: aes_encrypt_None)
next
  case (Some pw)
  from encrypt_succeeds [OF assms(1,3) Some] obtain blob
    where enc: "aes_encrypt L salt iv m password = Inr blob" by blast
  from decrypt_same_key [OF assms Some Some refl enc] enc Some
  show ?thesis by simp
qed

text \<open>
  The round trip for the three bytes \<^verbatim>\<open>b"hi!"\<close> under the password \<^verbatim>\<open>"abc"\<close>.
\<close>

theorem cipher_round_trip_witness:
  "\<exists>blob. aes_encrypt toy_lib (1 # replicate 15 0) (replicate 16 2) [104, 105, 33] [97, 98, 99]
             = Inr blob
        \<and> aes_decrypt toy_lib blob [97, 98, 99] = Inr [104, 105, 33]"
  using cipher_round_trip [OF lib_ok_toy, where salt = "1 # replicate 15 0"
          and iv = "replicate 16 2" and password = "[97, 98, 99]" and m = "[104, 105, 33]"]
  by (simp add: utf8_char_def)

text \<open>
  Claim C1 says that the round trip succeeds for every password.  The password
  \<^verbatim>\<open>"\ud800"\<close>, a \<^verbatim>\<open>str\<close> that holds one surrogate, has no UTF-8 encoding:
  \<^verbatim>\<open>password.encode()\<close> raises inside \<^verbatim>\<open>derive_key\<close>, and \<^verbatim>\<open>aes_encrypt\<close> fails with
  \<^verbatim>\<open>CryptoError("AES encrypt failed")\<close>, so there is no blob to decrypt.
\<close>

theorem encrypt_lone_surrogate:
  "aes_encrypt toy_lib (1 # replicate 15 0) (replicate 16 2) [104, 105, 33] [0xD800]
     = Inl (CryptoError EncryptFailed)"
  by (rule aes_encrypt_None [OF encode_surrogate])

text \<open>
  Claim C2 says that decrypting with any other password fails with
  \<^verbatim>\<open>HMACVerificationFailed\<close>.  The passwords \<^verbatim>\<open>"abc"\<close> and \<^verbatim>\<open>"abc\x00"\<close> are distinct,
  but HMAC pads a key shorter than its block with zero bytes, so PBKDF2 derives the same
  key from both: the blob encrypted under the first decrypts under the second and the
  plaintext is returned.  This holds for every hash function and block cipher
  (\<open>nul_suffix_decrypts\<close>); it is stated here for one of them.
\<close>

theorem wrong_password_accepted:
  "[97, 98, 99] \<noteq> [97, 98, 99, 0::nat] \<and>
   (\<exists>blob. aes_encrypt toy_lib (1 # replicate 15 0) (replicate 16 2) [104, 105, 33] [97, 98, 99]
             = Inr blob
         \<and> aes_decrypt toy_lib blob [97, 98, 99, 0] = Inr [104, 105, 33])"
  using nul_suffix_decrypts [OF lib_ok_toy _ _ encode_abc,
          of "1 # replicate 15 0" "replicate 16 2" "[104, 105, 33]"]
  by simp

text \<open>
  Claim C2, as the code has it.  Let \<open>p1\<close> have the UTF-8 encoding \<open>pw1\<close> and let
  \<open>blob\<close> be the encryption of \<open>m\<close> under \<open>p1\<close>.  Decrypting \<open>blob\<close> with \<open>p2\<close>
  fails with \<^verbatim>\<open>WrongPassword\<close> when \<open>p2\<close> has no encoding.  Otherwise it fails with
  \<^verbatim>\<open>HMACVerificationFailed\<close> exactly when the MAC recomputed under the PBKDF2 key of \<open>p2\<close>
  differs from the stored MAC, which is the MAC under the PBKDF2 key of \<open>p1\<close>; data is
  returned only when the two MACs agree.  Two passwords with the same HMAC block key
  (equal after padding with zero bytes to 64 bytes) always decrypt each other's blobs to
  \<open>m\<close>.
\<close>

theorem wrong_password_result:
  assumes "lib_ok L" and "length salt = 16" and "length iv = 16"
    and "encode p1 = Some pw1" and "aes_encrypt L salt iv m p1 = Inr blob"
  shows "aes_decrypt L blob p2 =
           (case encode p2 of
              None \<Rightarrow> Inl WrongPassword
            | Some pw2 \<Rightarrow>
                (let k1 = pbkdf2_hmac_sha256 L pw1 salt 390000 32;
                     k2 = pbkdf2_hmac_sha256 L pw2 salt 390000 32;
                     c = cfb_encrypt L k1 iv m
                 in if hmac_sha256 L k2 (salt @ iv @ c) = hmac_sha256 L k1 (salt @ iv @ c)
                    then Inr (cfb_decrypt L k2 iv c)
                    else Inl HMACVerificationFailed))
       \<and> (\<forall>pw2. encode p2 = Some pw2 \<and> hmac_block_key L pw2 = hmac_block_key L pw1
              \<longrightarrow> aes_decrypt L blob p2 = Inr m)"
proof (intro conjI allI impI)
  show "aes_decrypt L blob p2 =
           (case encode p2 of
              None \<Rightarrow> Inl WrongPassword
            | Some pw2 \<Rightarrow>
                (let k1 = pbkdf2_hmac_sha256 L pw1 salt 390000 32;
                     k2 = pbkdf2_hmac_sha256 L pw2 salt 390000 32;
                     c = cfb_encrypt L k1 iv m
                 in if hmac_sha256 L k2 (salt @ iv @ c) = hmac_sha256 L k1 (salt @ iv @ c)
                    then Inr (cfb_decrypt L k2 iv c)
                    else Inl HMACVerificationFailed))"
    by (rule decrypt_encrypted [OF assms])
next
  fix pw2
  assume a: "encode p2 = Some pw2 \<and> hmac_block_key L pw2 = hmac_block_key L pw1"
  then have same: "pbkdf2_hmac_sha256 L pw2 salt 390000 32 = pbkdf2_hmac_sha256 L pw1 salt 390000 32"
    by (intro pbkdf2_same_block_key) simp
  from a have e2: "encode p2 = Some pw2" by simp
  show "aes_decrypt L blob p2 = Inr m"
    by (rule decrypt_same_key [OF assms(1-4) e2 same assms(5)])
qed

text \<open>
  The blob encrypted under \<^verbatim>\<open>"abc"\<close> and decrypted with \<^verbatim>\<open>"bcd"\<close>: the derived keys are
  32 bytes \<open>0x10\<close> and 32 bytes \<open>0xF0\<close>, the MACs differ, and decryption fails with
  \<^verbatim>\<open>HMACVerificationFailed\<close>.
\<close>

theorem wrong_password_result_witness:
  "\<exists>blob. aes_encrypt toy_lib (1 # replicate 15 0) (replicate 16 2) [104, 105, 33] [97, 98, 99]
             = Inr blob
        \<and> aes_decrypt toy_lib blob [98, 99, 100] = Inl HMACVerificationFailed"
proof -
  obtain blob where enc:
    "aes_encrypt toy_lib (1 # replicate 15 0) (replicate 16 2) [104, 105, 33] [97, 98, 99] = Inr blob"
    using encrypt_succeeds [OF lib_ok_toy _ encode_abc, of "replicate 16 2"] by auto
  have "aes_decrypt toy_lib blob [98, 99, 100] = Inl HMACVerificationFailed"
    using wrong_password_result [OF lib_ok_toy _ _ encode_abc enc, of "[98, 99, 100]", THEN conjunct1]
    by (simp add: utf8_char_def key_abc key_bcd hmac_toy)
  with enc show ?thesis by blast
qed

text \<open>
  Claim C8.  The result of \<^verbatim>\<open>derive_key\<close> is determined by the password, the salt and
  the length: it is \<^verbatim>\<open>CryptoError\<close> when the password has no UTF-8 encoding and the
  PBKDF2-HMAC-SHA256 output of 390000 iterations over the encoded password otherwise.
  In \<^verbatim>\<open>aes_encrypt\<close> the encryption key and the HMAC key are both
  \<^verbatim>\<open>derive_key(password, salt, 32)\<close>: whenever the two derivations return keys they
  return the same 32-byte string \<open>k\<close>, and the blob is the ciphertext under \<open>k\<close>
  followed by its MAC under the same \<open>k\<close>.
\<close>

theorem key_reuse:
  assumes "lib_ok L" and "length iv = 16"
  shows "(case encode password of
            None \<Rightarrow>
              aes_encrypt_keys L salt password
                = (Inl (CryptoError KDFFailed), Inl (CryptoError KDFFailed))
          | Some pw \<Rightarrow>
              (let k = pbkdf2_hmac_sha256 L pw salt 390000 32
               in aes_encrypt_keys L salt password = (Inr k, Inr k) \<and> length k = 32
                \<and> aes_encrypt L salt iv data password
                    = Inr (b64encode (salt @ iv @ cfb_encrypt L k iv data
                         @ hmac_sha256 L k (salt @ iv @ cfb_encrypt L k iv data)))))
       \<and> (\<forall>key hmac_key. aes_encrypt_keys L salt password = (Inr key, Inr hmac_key)
             \<longrightarrow> hmac_key = key)"
proof (cases "encode password")
  case None
  then show ?thesis by (simp add: aes_encrypt_keys_def derive_key_None)
next
  case (Some pw)
  from encrypt_blob [OF assms Some, of salt data] Some show ?thesis
    by (simp add: aes_encrypt_keys_def derive_key_Some Let_def length_pbkdf2_32 [OF assms(1)])
qed

text \<open>
  The two keys of one encryption under the password \<^verbatim>\<open>"abc"\<close>: both are 32 bytes
  \<open>0x10\<close>.
\<close>

theorem key_reuse_witness:
  "aes_encrypt_keys toy_lib (1 # replicate 15 0) [97, 98, 99]
     = (Inr (replicate 32 0x10), Inr (replicate 32 0x10))"
  using key_reuse [OF lib_ok_toy, where iv = "replicate 16 2" and password = "[97, 98, 99]"
          and salt = "1 # replicate 15 0" and data = "[104, 105, 33]"]
  by (simp add: utf8_char_def key_abc Let_def)


section \<open>Changed blobs\<close>

subsection \<open>Base64 text with one character changed\<close>










subsection \<open>What the decryption of changed bytes returns\<close>




section \<open>The cipher module: tampering\<close>





end
